theory Spec2Isabelle
  imports Complex_Main "HOL-Library.FSet" "HOL-Library.AList"
begin

section \<open>PageRank: transition model, sampling estimator, iterative estimator\<close>

text \<open>
  A shallow embedding of \<^verbatim>\<open>src/pagerank.py\<close>.

  \<^item> A page is an opaque hashable value: a type variable \<open>'p\<close>.
  \<^item> A Python \<^verbatim>\<open>dict\<close> is an association list in insertion order; a dictionary has
    no duplicate keys, which is the predicate \<open>is_dict\<close>.
  \<^item> A Python \<^verbatim>\<open>set\<close> of pages is a finite set \<open>'p fset\<close>, \<^verbatim>\<open>len\<close> is \<open>fcard\<close>.
  \<^item> A Python \<^verbatim>\<open>float\<close> is a \<open>real\<close> and arithmetic is exact: the values agree with
    the program's up to rounding. Where rounding decides what the program does, in the
    convergence loop of \<open>iterate_pagerank\<close>, a second embedding of that loop rounds every
    operation to binary64.
  \<^item> Every exception the code can raise is a value \<open>Inl e\<close> of a sum type.
  \<^item> The random source is a function \<open>rnd\<close>: \<open>rnd i\<close> is the number that the
    \<open>i\<close>-th call of \<^verbatim>\<open>random()\<close> returns.
\<close>

subsection \<open>Python values\<close>

datatype error = KeyError | ZeroDivisionError | ValueError | IndexError

type_synonym 'p corpus = "('p \<times> 'p fset) list"
type_synonym 'p dist = "('p \<times> real) list"
type_synonym 'p counts = "('p \<times> int) list"

definition is_dict :: "('k \<times> 'v) list \<Rightarrow> bool" where
  "is_dict d = distinct (map fst d)"

definition keys :: "('k \<times> 'v) list \<Rightarrow> 'k list" where
  "keys d = map fst d"

definition dict_values :: "('k \<times> 'v) list \<Rightarrow> 'v list" where
  "dict_values d = map snd d"

text \<open>\<^verbatim>\<open>d[k]\<close>: raises \<^verbatim>\<open>KeyError\<close> when the key is absent.\<close>

definition getitem :: "('k \<times> 'v) list \<Rightarrow> 'k \<Rightarrow> error + 'v" where
  "getitem d k = (case map_of d k of None \<Rightarrow> Inl KeyError | Some v \<Rightarrow> Inr v)"

text \<open>\<^verbatim>\<open>a / b\<close> on numbers: raises \<^verbatim>\<open>ZeroDivisionError\<close> when the divisor is zero.\<close>

definition py_div :: "real \<Rightarrow> real \<Rightarrow> error + real" where
  "py_div a b = (if b = 0 then Inl ZeroDivisionError else Inr (a / b))"

text \<open>
  A \<^verbatim>\<open>for\<close> loop over a list whose body computes one entry per element and may raise:
  the first exception ends the loop.
\<close>

fun for_each :: "'a list \<Rightarrow> ('a \<Rightarrow> error + 'b) \<Rightarrow> error + 'b list" where
  "for_each [] body = Inr []"
| "for_each (x # xs) body =
     (case body x of
        Inl e \<Rightarrow> Inl e
      | Inr y \<Rightarrow> (case for_each xs body of Inl e \<Rightarrow> Inl e | Inr ys \<Rightarrow> Inr (y # ys)))"

text \<open>The corpus invariant of the data model: every linked page is a key.\<close>

definition corpus_invariant :: "'p corpus \<Rightarrow> bool" where
  "corpus_invariant corpus = (\<forall>(p, links) \<in> set corpus. fset links \<subseteq> set (keys corpus))"

subsection \<open>\<^verbatim>\<open>transition_model\<close>\<close>

text \<open>
  Line 63 reads \<^verbatim>\<open>corpus[page]\<close> before anything else. The two loops assign one entry
  per key of the corpus, in key order, to a dictionary that starts empty.
\<close>

definition transition_model :: "'p corpus \<Rightarrow> 'p \<Rightarrow> real \<Rightarrow> error + 'p dist" where
  "transition_model corpus page damping_factor =
     (let total_pages = length corpus in
      case getitem corpus page of
        Inl e \<Rightarrow> Inl e
      | Inr links \<Rightarrow>
          let num_links = fcard links in
          if num_links = 0 then
            for_each (keys corpus) (\<lambda>i.
              case py_div 1 (real total_pages) of
                Inl e \<Rightarrow> Inl e
              | Inr v \<Rightarrow> Inr (i, v))
          else
            for_each (keys corpus) (\<lambda>i.
              if i |\<in>| links then
                (case py_div (1 - damping_factor) (real total_pages) of
                   Inl e \<Rightarrow> Inl e
                 | Inr a \<Rightarrow>
                     (case py_div damping_factor (real num_links) of
                        Inl e \<Rightarrow> Inl e
                      | Inr b \<Rightarrow> Inr (i, a + b)))
              else
                (case py_div (1 - damping_factor) (real total_pages) of
                   Inl e \<Rightarrow> Inl e
                 | Inr a \<Rightarrow> Inr (i, a))))"

subsection \<open>\<^verbatim>\<open>random.choices\<close> with weights\<close>

text \<open>
  The standard library's \<^verbatim>\<open>random.choices(population, weights)[0]\<close>, with the number
  \<open>u\<close> that \<^verbatim>\<open>random()\<close> returns made a parameter. The library accumulates the
  weights, checks their number, reads the total \<^verbatim>\<open>cum_weights[-1]\<close>, rejects a total
  that is not positive, and selects \<^verbatim>\<open>population[bisect(cum_weights, u * total, 0, n - 1)]\<close>.
  Its test that the total is finite always succeeds on reals. \<open>bisect\<close> is the library's
  binary search \<^verbatim>\<open>bisect_right\<close> between \<open>lo\<close> and \<open>hi\<close>.
\<close>

fun accumulate :: "real \<Rightarrow> real list \<Rightarrow> real list" where
  "accumulate acc [] = []"
| "accumulate acc (w # ws) = (acc + w) # accumulate (acc + w) ws"

function bisect :: "real list \<Rightarrow> real \<Rightarrow> nat \<Rightarrow> nat \<Rightarrow> nat" where
  "bisect a x lo hi =
     (if lo < hi then
        (let mid = (lo + hi) div 2 in
         if x < a ! mid then bisect a x lo mid else bisect a x (mid + 1) hi)
      else lo)"
  by pat_completeness auto
termination
  by (relation "measure (\<lambda>(a, x, lo, hi). hi - lo)") auto

declare bisect.simps [simp del]

definition choices :: "'p list \<Rightarrow> real list \<Rightarrow> real \<Rightarrow> error + 'p" where
  "choices population weights u =
     (let n = length population;
          cum_weights = accumulate 0 weights in
      if length cum_weights \<noteq> n then Inl ValueError
      else if cum_weights = [] then Inl IndexError
      else
        let total = last cum_weights in
        if total \<le> 0 then Inl ValueError
        else Inr (population ! bisect cum_weights (u * total) 0 (n - 1)))"

subsection \<open>\<^verbatim>\<open>sample_pagerank\<close>\<close>

text \<open>\<^verbatim>\<open>sample_dist[current_page] += 1\<close>: reads the entry, then stores it.\<close>

definition increment :: "'p counts \<Rightarrow> 'p \<Rightarrow> error + 'p counts" where
  "increment sample_dist current_page =
     (case getitem sample_dist current_page of
        Inl e \<Rightarrow> Inl e
      | Inr c \<Rightarrow> Inr (AList.update current_page (c + 1) sample_dist))"

text \<open>
  The loop \<^verbatim>\<open>for i in range(0, n)\<close>: the first argument counts the iterations that
  remain, \<open>i\<close> is the loop index, which is also the index of the random number drawn.
\<close>

fun sample_loop ::
  "'p corpus \<Rightarrow> real \<Rightarrow> (nat \<Rightarrow> real) \<Rightarrow> nat \<Rightarrow> nat \<Rightarrow> 'p dist \<Rightarrow> 'p counts \<Rightarrow> error + 'p counts"
where
  "sample_loop corpus damping_factor rnd 0 i prob sample_dist = Inr sample_dist"
| "sample_loop corpus damping_factor rnd (Suc k) i prob sample_dist =
     (case choices (keys corpus) (dict_values prob) (rnd i) of
        Inl e \<Rightarrow> Inl e
      | Inr current_page \<Rightarrow>
          (case increment sample_dist current_page of
             Inl e \<Rightarrow> Inl e
           | Inr sample_dist' \<Rightarrow>
               (case transition_model corpus current_page damping_factor of
                  Inl e \<Rightarrow> Inl e
                | Inr prob' \<Rightarrow>
                    sample_loop corpus damping_factor rnd k (Suc i) prob' sample_dist')))"

definition sample_pagerank ::
  "'p corpus \<Rightarrow> real \<Rightarrow> int \<Rightarrow> (nat \<Rightarrow> real) \<Rightarrow> error + 'p dist"
where
  "sample_pagerank corpus damping_factor n rnd =
     (let total_pages = length corpus in
      case for_each (keys corpus) (\<lambda>p.
             case py_div 1 (real total_pages) of
               Inl e \<Rightarrow> Inl e
             | Inr v \<Rightarrow> Inr ((p, v), (p, 0))) of
        Inl e \<Rightarrow> Inl e
      | Inr init \<Rightarrow>
          (case sample_loop corpus damping_factor rnd (nat n) 0 (map fst init) (map snd init) of
             Inl e \<Rightarrow> Inl e
           | Inr sample_dist \<Rightarrow>
               for_each sample_dist (\<lambda>(k, c).
                 case py_div (real_of_int c) (real_of_int n) of
                   Inl e \<Rightarrow> Inl e
                 | Inr v \<Rightarrow> Inr (k, v))))"

subsection \<open>\<^verbatim>\<open>iterate_pagerank\<close>\<close>

text \<open>The inner loop over \<open>i\<close> (lines 129 to 134), accumulating \<^verbatim>\<open>sum_pri\<close>.\<close>

fun sum_pri_loop ::
  "'p corpus \<Rightarrow> nat \<Rightarrow> 'p dist \<Rightarrow> 'p \<Rightarrow> 'p list \<Rightarrow> real \<Rightarrow> error + real"
where
  "sum_pri_loop corpus total_pages prev_prob p [] sum_pri = Inr sum_pri"
| "sum_pri_loop corpus total_pages prev_prob p (i # is) sum_pri =
     (case getitem corpus i of
        Inl e \<Rightarrow> Inl e
      | Inr links \<Rightarrow>
          if fcard links = 0 then
            (case getitem prev_prob i of
               Inl e \<Rightarrow> Inl e
             | Inr r \<Rightarrow>
                 (case py_div r (real total_pages) of
                    Inl e \<Rightarrow> Inl e
                  | Inr v \<Rightarrow> sum_pri_loop corpus total_pages prev_prob p is (sum_pri + v)))
          else if p |\<in>| links then
            (case getitem prev_prob i of
               Inl e \<Rightarrow> Inl e
             | Inr r \<Rightarrow>
                 (case py_div r (real (fcard links)) of
                    Inl e \<Rightarrow> Inl e
                  | Inr v \<Rightarrow> sum_pri_loop corpus total_pages prev_prob p is (sum_pri + v)))
          else sum_pri_loop corpus total_pages prev_prob p is sum_pri)"

text \<open>
  The loop over \<open>p\<close> (lines 127 to 138): \<^verbatim>\<open>new_prob\<close> is updated in place, \<^verbatim>\<open>prev_prob\<close>
  is the copy taken at line 125.
\<close>

fun pass_loop ::
  "'p corpus \<Rightarrow> real \<Rightarrow> nat \<Rightarrow> 'p dist \<Rightarrow> 'p list \<Rightarrow> 'p dist \<Rightarrow> real \<Rightarrow> error + ('p dist \<times> real)"
where
  "pass_loop corpus damping_factor total_pages prev_prob [] new_prob max_diff =
     Inr (new_prob, max_diff)"
| "pass_loop corpus damping_factor total_pages prev_prob (p # ps) new_prob max_diff =
     (case sum_pri_loop corpus total_pages prev_prob p (keys corpus) 0 of
        Inl e \<Rightarrow> Inl e
      | Inr sum_pri \<Rightarrow>
          (case py_div (1 - damping_factor) (real total_pages) of
             Inl e \<Rightarrow> Inl e
           | Inr a \<Rightarrow>
               let new_prob' = AList.update p (a + damping_factor * sum_pri) new_prob in
               (case getitem new_prob' p of
                  Inl e \<Rightarrow> Inl e
                | Inr np \<Rightarrow>
                    (case getitem prev_prob p of
                       Inl e \<Rightarrow> Inl e
                     | Inr pp \<Rightarrow>
                         pass_loop corpus damping_factor total_pages prev_prob ps new_prob'
                           (max max_diff \<bar>np - pp\<bar>)))))"

text \<open>
  The \<^verbatim>\<open>while\<close> loop (line 124). It may run forever: the result \<open>None\<close> stands for
  a loop that never returns.
\<close>

partial_function (option) while_loop ::
  "'p corpus \<Rightarrow> real \<Rightarrow> nat \<Rightarrow> 'p dist \<Rightarrow> real \<Rightarrow> (error + 'p dist) option"
where
  "while_loop corpus damping_factor total_pages new_prob max_diff =
     (if max_diff > 1 / 1000 then
        (case pass_loop corpus damping_factor total_pages new_prob (keys corpus) new_prob 0 of
           Inl e \<Rightarrow> Some (Inl e)
         | Inr (new_prob', max_diff') \<Rightarrow>
             while_loop corpus damping_factor total_pages new_prob' max_diff')
      else Some (Inr new_prob))"

declare while_loop.simps [code]

text \<open>
  Lines 115 to 122: \<^verbatim>\<open>prev_prob\<close> is initialised to \<open>-1\<close> but overwritten at
  line 125 before it is read, so only \<^verbatim>\<open>new_prob\<close> is carried.
\<close>

definition initial_ranks :: "'p corpus \<Rightarrow> error + 'p dist" where
  "initial_ranks corpus =
     (let total_pages = length corpus in
      for_each (keys corpus) (\<lambda>p.
        case py_div 1 (real total_pages) of
          Inl e \<Rightarrow> Inl e
        | Inr v \<Rightarrow> Inr (p, v)))"

definition iterate_pagerank :: "'p corpus \<Rightarrow> real \<Rightarrow> (error + 'p dist) option" where
  "iterate_pagerank corpus damping_factor =
     (let total_pages = length corpus in
      case initial_ranks corpus of
        Inl e \<Rightarrow> Some (Inl e)
      | Inr new_prob \<Rightarrow> while_loop corpus damping_factor total_pages new_prob (11 / 10000))"

text \<open>
  The variables \<^verbatim>\<open>new_prob\<close> and \<^verbatim>\<open>max_diff\<close> after \<open>k\<close> executions of the body of
  the \<^verbatim>\<open>while\<close> loop, whatever the loop condition says: the state before the first
  test is the initialisation, each further state is one full pass over the pages.
\<close>

fun run_passes :: "'p corpus \<Rightarrow> real \<Rightarrow> nat \<Rightarrow> error + ('p dist \<times> real)" where
  "run_passes corpus damping_factor 0 =
     (case initial_ranks corpus of
        Inl e \<Rightarrow> Inl e
      | Inr new_prob \<Rightarrow> Inr (new_prob, 11 / 10000))"
| "run_passes corpus damping_factor (Suc k) =
     (case run_passes corpus damping_factor k of
        Inl e \<Rightarrow> Inl e
      | Inr (new_prob, max_diff) \<Rightarrow>
          pass_loop corpus damping_factor (length corpus) new_prob (keys corpus) new_prob 0)"

subsection \<open>\<^verbatim>\<open>iterate_pagerank\<close> in binary64 arithmetic\<close>

text \<open>
  The number of binary digits of a positive integer, \<open>0\<close> for the others.
\<close>

function bit_length :: "int \<Rightarrow> nat" where
  "bit_length n = (if n \<le> 0 then 0 else Suc (bit_length (n div 2)))"
  by pat_completeness auto
termination
  by (relation "measure nat") auto

declare bit_length.simps [simp del]

text \<open>
  The exponent \<open>e\<close> with \<open>2\<^sup>e \<le> \<bar>x\<bar> < 2\<^sup>e\<^sup>+\<^sup>1\<close> of a non-zero number \<open>x\<close>.
\<close>

definition binade :: "real \<Rightarrow> int" where
  "binade x =
     (if 1 \<le> \<bar>x\<bar> then int (bit_length \<lfloor>\<bar>x\<bar>\<rfloor>) - 1
      else - int (bit_length (\<lceil>1 / \<bar>x\<bar>\<rceil> - 1)))"

text \<open>The nearest integer, the even one of the two when \<open>q\<close> lies half-way.\<close>

definition round_half_even :: "real \<Rightarrow> int" where
  "round_half_even q =
     (let n = \<lfloor>q\<rfloor>; r = q - of_int n in
      if r < 1 / 2 then n
      else if 1 / 2 < r then n + 1
      else if even n then n else n + 1)"

text \<open>
  The binary64 number nearest to \<open>x\<close>, ties to even: 53 significant bits, the unit in
  the last place never below \<open>2\<^sup>-\<^sup>1\<^sup>0\<^sup>7\<^sup>4\<close> (subnormal numbers). Infinities and NaN are not
  modelled: the definitions below are used where every value stays far below \<open>2\<^sup>1\<^sup>0\<^sup>2\<^sup>4\<close>.
\<close>

definition round64 :: "real \<Rightarrow> real" where
  "round64 x =
     (if x = 0 then 0
      else
        let ulp = 2 powi (max (binade x) (- 1022) - 52) in
        of_int (round_half_even (x / ulp)) * ulp)"














subsection \<open>Closed forms used in the proofs\<close>

text \<open>
  The value that \<open>transition_model\<close> stores for page \<open>q\<close> when the current page has the
  outgoing set \<open>links\<close> and the corpus has \<open>N\<close> pages.
\<close>

definition link_weight :: "nat \<Rightarrow> 'p fset \<Rightarrow> real \<Rightarrow> 'p \<Rightarrow> real" where
  "link_weight N links d q =
     (if fcard links = 0 then 1 / real N
      else (1 - d) / real N + (if q |\<in>| links then d / real (fcard links) else 0))"

text \<open>
  The weight with which the previous rank of page \<open>i\<close> enters the new rank of page \<open>p\<close>
  in one pass of \<open>iterate_pagerank\<close>, and the new rank as a function of the previous
  rank vector \<open>x\<close>.
\<close>

definition contribution :: "'p corpus \<Rightarrow> 'p \<Rightarrow> 'p \<Rightarrow> real" where
  "contribution corpus i p =
     (case map_of corpus i of
        None \<Rightarrow> 0
      | Some links \<Rightarrow>
          if fcard links = 0 then 1 / real (length corpus)
          else if p |\<in>| links then 1 / real (fcard links)
          else 0)"

definition update_rank :: "'p corpus \<Rightarrow> real \<Rightarrow> ('p \<Rightarrow> real) \<Rightarrow> 'p \<Rightarrow> real" where
  "update_rank corpus d x p =
     (1 - d) / real (length corpus) + d * (\<Sum>i\<leftarrow>keys corpus. x i * contribution corpus i p)"

text \<open>The dictionary that stores \<open>x p\<close> under every key \<open>p\<close> of \<open>ks\<close>.\<close>

definition ranks_of :: "'p list \<Rightarrow> ('p \<Rightarrow> real) \<Rightarrow> 'p dist" where
  "ranks_of ks x = map (\<lambda>p. (p, x p)) ks"

text \<open>The running maximum of line 138 over the pages \<open>ps\<close>, started at \<open>m\<close>.\<close>

definition max_change :: "'p list \<Rightarrow> ('p \<Rightarrow> real) \<Rightarrow> ('p \<Rightarrow> real) \<Rightarrow> real \<Rightarrow> real" where
  "max_change ps x y m = fold (\<lambda>p m. max m \<bar>y p - x p\<bar>) ps m"

section \<open>Basic facts about the Python values\<close>

lemma for_each_Inr:
  "(\<And>x. x \<in> set xs \<Longrightarrow> body x = Inr (g x)) \<Longrightarrow> for_each xs body = Inr (map g xs)"
  by (induction xs) auto

lemma getitem_Some: "map_of d k = Some v \<Longrightarrow> getitem d k = Inr v"
  by (simp add: getitem_def)

lemma getitem_None: "map_of d k = None \<Longrightarrow> getitem d k = Inl KeyError"
  by (simp add: getitem_def)

lemma map_of_Some_nonempty: "map_of d k = Some v \<Longrightarrow> 0 < length d"
  by (cases d) auto

lemma py_div_nonzero: "b \<noteq> 0 \<Longrightarrow> py_div a b = Inr (a / b)"
  by (simp add: py_div_def)

lemma key_lookup: "p \<in> set (keys corpus) \<Longrightarrow> \<exists>links. map_of corpus p = Some links"
  by (cases "map_of corpus p") (simp_all add: keys_def map_of_eq_None_iff)

lemma lookup_key: "map_of corpus p = Some links \<Longrightarrow> p \<in> set (keys corpus)"
  using map_of_eq_None_iff [of corpus p] by (simp add: keys_def)

lemma invariant_links:
  assumes "corpus_invariant corpus" and "map_of corpus page = Some links"
  shows "fset links \<subseteq> set (keys corpus)"
  using assms map_of_SomeD [OF assms(2)] by (auto simp: corpus_invariant_def)

lemma map_of_tabulate: "q \<in> set ks \<Longrightarrow> map_of (map (\<lambda>q. (q, f q)) ks) q = Some (f q)"
  by (induction ks) auto

section \<open>The transition model\<close>

lemma transition_model_eq:
  assumes "map_of corpus page = Some links"
  shows "transition_model corpus page d =
         Inr (map (\<lambda>q. (q, link_weight (length corpus) links d q)) (keys corpus))"
proof -
  have N: "real (length corpus) \<noteq> 0"
    using map_of_Some_nonempty [OF assms] by simp
  show ?thesis
  proof (cases "fcard links = 0")
    case True
    then show ?thesis
      using N by (simp add: transition_model_def getitem_Some [OF assms] py_div_nonzero
          link_weight_def for_each_Inr)
  next
    case False
    then have L: "real (fcard links) \<noteq> 0" by simp
    have "for_each (keys corpus) (\<lambda>i.
              if i |\<in>| links then
                (case py_div (1 - d) (real (length corpus)) of
                   Inl e \<Rightarrow> Inl e
                 | Inr a \<Rightarrow>
                     (case py_div d (real (fcard links)) of
                        Inl e \<Rightarrow> Inl e
                      | Inr b \<Rightarrow> Inr (i, a + b)))
              else
                (case py_div (1 - d) (real (length corpus)) of
                   Inl e \<Rightarrow> Inl e
                 | Inr a \<Rightarrow> Inr (i, a)))
       = Inr (map (\<lambda>q. (q, link_weight (length corpus) links d q)) (keys corpus))"
      using False
      by (intro for_each_Inr)
        (simp add: py_div_nonzero [OF N] py_div_nonzero [OF L] link_weight_def)
    then show ?thesis
      using False by (simp add: transition_model_def getitem_Some [OF assms])
  qed
qed

lemma sum_list_indicator:
  assumes "distinct ks"
  shows "sum_list (map (\<lambda>q. if q |\<in>| L then b else (0::real)) ks)
       = real (card (fset L \<inter> set ks)) * b"
proof -
  have "sum_list (map (\<lambda>q. if q |\<in>| L then b else 0) ks)
      = (\<Sum>q\<in>set ks. if q |\<in>| L then b else 0)"
    using assms by (simp add: sum_list_distinct_conv_sum_set)
  also have "\<dots> = (\<Sum>q\<in>fset L \<inter> set ks. b)"
    by (simp add: sum.inter_restrict [symmetric] Int_commute)
  finally show ?thesis by simp
qed

lemma link_weight_sum:
  assumes "distinct ks" and "fset links \<subseteq> set ks" and "ks \<noteq> []"
  shows "sum_list (map (link_weight (length ks) links d) ks) = 1"
proof (cases "fcard links = 0")
  case True
  then have "link_weight (length ks) links d = (\<lambda>q. 1 / real (length ks))"
    by (simp add: link_weight_def fun_eq_iff)
  then show ?thesis
    using assms(3) by (simp add: sum_list_triv)
next
  case False
  have inter: "fset links \<inter> set ks = fset links"
    using assms(2) by blast
  have "sum_list (map (link_weight (length ks) links d) ks)
      = sum_list (map (\<lambda>q. (1 - d) / real (length ks)) ks)
        + sum_list (map (\<lambda>q. if q |\<in>| links then d / real (fcard links) else 0) ks)"
  proof -
    have "link_weight (length ks) links d
        = (\<lambda>q. (1 - d) / real (length ks) + (if q |\<in>| links then d / real (fcard links) else 0))"
      using False by (simp add: link_weight_def fun_eq_iff)
    then show ?thesis
      by (simp only: sum_list_addf)
  qed
  also have "\<dots> = (1 - d) + real (fcard links) * (d / real (fcard links))"
    using assms(3) by (simp add: sum_list_triv sum_list_indicator [OF assms(1)] inter fcard.rep_eq)
  also have "\<dots> = 1"
    using False by simp
  finally show ?thesis .
qed

lemma transition_model_sum:
  assumes "is_dict corpus" and "corpus_invariant corpus" and "map_of corpus p = Some links"
  shows "sum_list (map (link_weight (length corpus) links d) (keys corpus)) = 1"
proof -
  have "keys corpus \<noteq> []"
    using map_of_Some_nonempty [OF assms(3)] by (simp add: keys_def)
  then have "sum_list (map (link_weight (length (keys corpus)) links d) (keys corpus)) = 1"
    using assms(1) invariant_links [OF assms(2,3)]
    by (intro link_weight_sum) (simp_all add: is_dict_def keys_def)
  then show ?thesis
    by (simp add: keys_def)
qed

text \<open>
  C1 (mass conservation). For a non-empty dictionary that satisfies the corpus invariant,
  a page \<open>p\<close> that is one of its keys and a damping factor in \<open>(0, 1)\<close>,
  \<open>transition_model\<close> returns a distribution over the keys of the corpus whose values
  sum to \<open>1\<close>. The sum is exact, since the model computes in the reals.
\<close>

theorem transition_model_mass_conservation:
  assumes "corpus \<noteq> []" and "is_dict corpus" and "corpus_invariant corpus"
    and "p \<in> set (keys corpus)" and "0 < d" and "d < 1"
  shows "\<exists>dist. transition_model corpus p d = Inr dist \<and> keys dist = keys corpus
           \<and> sum_list (dict_values dist) = 1"
proof -
  obtain links where links: "map_of corpus p = Some links"
    using key_lookup [OF assms(4)] by blast
  let ?dist = "map (\<lambda>q. (q, link_weight (length corpus) links d q)) (keys corpus)"
  have "sum_list (dict_values ?dist) = 1"
    using transition_model_sum [OF assms(2,3) links, of d]
    by (simp add: dict_values_def comp_def)
  moreover have "keys ?dist = keys corpus"
    by (simp add: keys_def comp_def)
  ultimately show ?thesis
    by (simp add: transition_model_eq [OF links])
qed

theorem transition_model_mass_conservation_witness:
  "\<exists>dist. transition_model [(''A'', {|''B''|}), (''B'', {|''A''|})] ''A'' (85 / 100) = Inr dist
     \<and> keys dist = [''A'', ''B''] \<and> sum_list (dict_values dist) = 1"
  using transition_model_mass_conservation
    [of "[(''A'', {|''B''|}), (''B'', {|''A''|})]" "''A''" "85 / 100"]
  by (simp add: is_dict_def corpus_invariant_def keys_def)

text \<open>
  C2 (values with outgoing links). When page \<open>p\<close> of the corpus has \<open>L > 0\<close> outgoing
  links, \<open>transition_model\<close> assigns to every page \<open>q\<close> of the corpus \<open>(1 - d) / N\<close> when
  \<open>q\<close> is not in the outgoing set of \<open>p\<close> and \<open>(1 - d) / N + d / L\<close> when it is, with
  \<open>N\<close> the number of pages.
\<close>

theorem transition_model_linked_values:
  assumes "map_of corpus p = Some links" and "0 < fcard links" and "q \<in> set (keys corpus)"
  shows "\<exists>dist. transition_model corpus p d = Inr dist \<and> keys dist = keys corpus \<and>
           map_of dist q =
             Some (if q |\<in>| links
                   then (1 - d) / real (length corpus) + d / real (fcard links)
                   else (1 - d) / real (length corpus))"
proof -
  let ?dist = "map (\<lambda>q. (q, link_weight (length corpus) links d q)) (keys corpus)"
  have "map_of ?dist q = Some (link_weight (length corpus) links d q)"
    using assms(3) by (rule map_of_tabulate)
  moreover have "keys ?dist = keys corpus"
    by (simp add: keys_def comp_def)
  moreover have "fcard links \<noteq> 0"
    using assms(2) by (auto simp: fcard_fempty)
  ultimately show ?thesis
    by (simp add: transition_model_eq [OF assms(1)] link_weight_def)
qed

theorem transition_model_linked_values_witness:
  "\<exists>dist. transition_model [(''A'', {||}), (''B'', {|''A''|})] ''B'' (85 / 100) = Inr dist
     \<and> keys dist = [''A'', ''B''] \<and> map_of dist ''A'' = Some (37 / 40)"
  using transition_model_linked_values
    [of "[(''A'', {||}), (''B'', {|''A''|})]" "''B''" "{|''A''|}" "''A''" "85 / 100"]
  by (simp add: keys_def fcard_finsert_if fcard_fempty)

text \<open>
  C3 (dangling node). When page \<open>p\<close> of the corpus has no outgoing links,
  \<open>transition_model\<close> returns the uniform distribution: \<open>1 / N\<close> for every page of the
  corpus, in key order, whatever the damping factor. For the corpus
  \<^verbatim>\<open>{A: {}, B: {A}}\<close> and damping \<open>0.85\<close> the result at \<open>A\<close> is
  \<^verbatim>\<open>{A: 0.5, B: 0.5}\<close>.
\<close>

theorem transition_model_dangling:
  "(map_of corpus p = Some links \<and> fcard links = 0 \<longrightarrow>
      transition_model corpus p d = Inr (map (\<lambda>q. (q, 1 / real (length corpus))) (keys corpus)))
   \<and> transition_model [(''A'', {||}), (''B'', {|''A''|})] ''A'' (85 / 100)
       = Inr [(''A'', 1 / 2), (''B'', 1 / 2)]"
proof (intro conjI impI)
  assume "map_of corpus p = Some links \<and> fcard links = 0"
  then show "transition_model corpus p d
      = Inr (map (\<lambda>q. (q, 1 / real (length corpus))) (keys corpus))"
    by (simp add: transition_model_eq link_weight_def)
next
  have "map_of [(''A'', {||}), (''B'', {|''A''|})] ''A'' = Some {||}"
    by simp
  then show "transition_model [(''A'', {||}), (''B'', {|''A''|})] ''A'' (85 / 100)
      = Inr [(''A'', 1 / 2), (''B'', 1 / 2)]"
    by (simp add: transition_model_eq link_weight_def keys_def)
qed

theorem transition_model_dangling_witness:
  "transition_model [(''A'', {||}), (''B'', {||}), (''C'', {|''A''|})] ''B'' (1 / 2)
     = Inr [(''A'', 1 / 3), (''B'', 1 / 3), (''C'', 1 / 3)]"
  using transition_model_dangling
    [of "[(''A'', {||}), (''B'', {||}), (''C'', {|''A''|})]" "''B''" "{||}" "1 / 2"]
  by (simp add: keys_def)

section \<open>The weighted draw and the sampling loop\<close>

lemma bisect_le: "lo \<le> hi \<Longrightarrow> bisect a x lo hi \<le> hi"
proof (induction a x lo hi rule: bisect.induct)
  case (1 a x lo hi)
  show ?case
  proof (cases "lo < hi")
    case True
    let ?mid = "(lo + hi) div 2"
    have mid: "lo \<le> ?mid" "?mid \<le> hi" "?mid + 1 \<le> hi"
      using True by simp_all
    show ?thesis
    proof (cases "x < a ! ?mid")
      case left: True
      have "bisect a x lo ?mid \<le> ?mid"
        using "1.IH"(1) [OF True refl left mid(1)] .
      then show ?thesis
        using True left mid(2) by (subst bisect.simps) (simp add: Let_def)
    next
      case right: False
      have "bisect a x (?mid + 1) hi \<le> hi"
        using "1.IH"(2) [OF True refl right mid(3)] .
      then show ?thesis
        using True right by (subst bisect.simps) (simp add: Let_def)
    qed
  next
    case False
    then show ?thesis
      using "1.prems" by (subst bisect.simps) simp
  qed
qed

lemma length_accumulate: "length (accumulate acc ws) = length ws"
  by (induction ws arbitrary: acc) auto

lemma last_Cons_accumulate: "last (acc # accumulate acc ws) = acc + sum_list ws"
  by (induction ws arbitrary: acc) (simp_all add: add.assoc)

lemma last_accumulate: "ws \<noteq> [] \<Longrightarrow> last (accumulate acc ws) = acc + sum_list ws"
  using last_Cons_accumulate [of "acc + hd ws" "tl ws"]
  by (cases ws) (simp_all add: add.assoc)

lemma choices_ok:
  assumes "length ws = length pop" and "pop \<noteq> []" and "0 < sum_list ws"
  shows "\<exists>cp\<in>set pop. choices pop ws u = Inr cp"
proof -
  have ws: "ws \<noteq> []"
    using assms(1,2) by auto
  then have acc: "accumulate 0 ws \<noteq> []"
    using length_accumulate [of 0 ws] by (metis length_0_conv)
  have total: "last (accumulate 0 ws) = sum_list ws"
    using last_accumulate [OF ws, of 0] by simp
  let ?j = "bisect (accumulate 0 ws) (u * sum_list ws) 0 (length pop - 1)"
  have "?j \<le> length pop - 1"
    by (rule bisect_le) simp
  then have "?j < length pop"
    using assms(2) by (cases pop) auto
  then have "pop ! ?j \<in> set pop"
    by simp
  moreover have "choices pop ws u = Inr (pop ! ?j)"
    using assms(1,3) acc total by (simp add: choices_def length_accumulate Let_def)
  ultimately show ?thesis by simp
qed

lemma choices_member: "choices pop ws u = Inr cp \<Longrightarrow> cp \<in> set pop"
proof -
  assume a: "choices pop ws u = Inr cp"
  let ?cw = "accumulate 0 ws"
  from a have len: "length ?cw = length pop" and ne: "?cw \<noteq> []"
    and cp: "cp = pop ! bisect ?cw (u * last ?cw) 0 (length pop - 1)"
    by (auto simp: choices_def Let_def split: if_splits)
  have "bisect ?cw (u * last ?cw) 0 (length pop - 1) \<le> length pop - 1"
    by (rule bisect_le) simp
  moreover have "pop \<noteq> []"
    using len ne by auto
  ultimately have "bisect ?cw (u * last ?cw) 0 (length pop - 1) < length pop"
    by (cases pop) auto
  then show ?thesis
    using cp by simp
qed

lemma increment_ok:
  assumes "cp \<in> set (keys sd)"
  shows "\<exists>sd'. increment sd cp = Inr sd' \<and> keys sd' = keys sd"
proof -
  obtain c where c: "map_of sd cp = Some c"
    using key_lookup [OF assms] by blast
  have "keys (AList.update cp (c + 1) sd) = keys sd"
    using assms by (simp add: keys_def update_keys)
  then show ?thesis
    by (simp add: increment_def getitem_Some [OF c])
qed

lemma update_sum:
  "map_of sd cp = Some c \<Longrightarrow>
   sum_list (map snd (AList.update cp (c + 1) sd)) = sum_list (map snd sd) + (1::int)"
  by (induction sd) (auto split: if_splits)

lemma update_mono:
  "map_of sd cp = Some (c::int) \<Longrightarrow>
   list_all2 (\<lambda>a b. snd a \<le> snd b) sd (AList.update cp (c + 1) sd)"
  by (induction sd) (auto split: if_splits simp: list_all2_refl list.rel_refl)

lemma increment_counts:
  assumes "increment sd cp = Inr sd'"
  shows "keys sd' = keys sd \<and> sum_list (dict_values sd') = sum_list (dict_values sd) + 1
         \<and> list_all2 (\<lambda>a b. snd a \<le> snd b) sd sd'"
proof -
  from assms obtain c where c: "map_of sd cp = Some c" and sd': "sd' = AList.update cp (c + 1) sd"
    by (auto simp: increment_def getitem_def split: option.splits)
  have "cp \<in> set (keys sd)"
    using c by (rule lookup_key)
  then have "keys sd' = keys sd"
    by (simp add: sd' keys_def update_keys)
  then show ?thesis
    using update_sum [OF c] update_mono [OF c] by (simp add: sd' dict_values_def)
qed

lemma sample_loop_counts:
  "sample_loop corpus d rnd k i prob sd = Inr sd' \<Longrightarrow>
   keys sd' = keys sd \<and> sum_list (dict_values sd') = sum_list (dict_values sd) + int k
     \<and> list_all2 (\<lambda>a b. snd a \<le> snd b) sd sd'"
proof (induction k arbitrary: i prob sd)
  case 0
  then show ?case by (simp add: list.rel_refl)
next
  case (Suc k)
  from Suc.prems obtain cp sd1 prob1 where
    inc: "increment sd cp = Inr sd1"
    and rest: "sample_loop corpus d rnd k (Suc i) prob1 sd1 = Inr sd'"
    by (auto split: sum.splits)
  note a = increment_counts [OF inc]
  note b = Suc.IH [OF rest]
  have "list_all2 (\<lambda>a b. snd a \<le> snd b) sd sd'"
  proof (rule list_all2_trans)
    show "list_all2 (\<lambda>a b. snd a \<le> snd b) sd sd1"
      using a by simp
    show "list_all2 (\<lambda>a b. snd a \<le> snd b) sd1 sd'"
      using b by simp
  qed simp
  then show ?case
    using a b by simp
qed

lemma sample_loop_returns:
  assumes tm: "\<And>p. p \<in> set (keys corpus) \<Longrightarrow>
      \<exists>dist. transition_model corpus p d = Inr dist \<and> length dist = length corpus
        \<and> 0 < sum_list (dict_values dist)"
    and ne: "corpus \<noteq> []"
  shows "length prob = length corpus \<Longrightarrow> 0 < sum_list (dict_values prob) \<Longrightarrow>
         keys sd = keys corpus \<Longrightarrow> \<exists>sd'. sample_loop corpus d rnd k i prob sd = Inr sd'"
proof (induction k arbitrary: i prob sd)
  case 0
  then show ?case by simp
next
  case (Suc k)
  have "\<exists>cp\<in>set (keys corpus). choices (keys corpus) (dict_values prob) (rnd i) = Inr cp"
    using Suc.prems(1,2) ne by (intro choices_ok) (simp_all add: keys_def dict_values_def)
  then obtain cp where cp: "cp \<in> set (keys corpus)"
    and ch: "choices (keys corpus) (dict_values prob) (rnd i) = Inr cp"
    by blast
  obtain sd1 where inc: "increment sd cp = Inr sd1" and k1: "keys sd1 = keys sd"
    using increment_ok [of cp sd] cp Suc.prems(3) by auto
  obtain prob1 where t: "transition_model corpus cp d = Inr prob1"
    and l1: "length prob1 = length corpus" and s1: "0 < sum_list (dict_values prob1)"
    using tm [OF cp] by blast
  obtain sd' where "sample_loop corpus d rnd k (Suc i) prob1 sd1 = Inr sd'"
    using Suc.IH [OF l1 s1] k1 Suc.prems(3) by auto
  then show ?case
    by (simp add: ch inc t)
qed

lemma link_weight_pos:
  assumes "0 < d" and "d < 1" and "0 < N"
  shows "0 < link_weight N links d q"
proof (cases "fcard links = 0")
  case True
  then show ?thesis using assms(3) by (simp add: link_weight_def)
next
  case False
  have "0 < (1 - d) / real N"
    using assms by simp
  moreover have "0 \<le> (if q |\<in>| links then d / real (fcard links) else 0)"
    using assms(1) by simp
  ultimately show ?thesis
    using False by (simp add: link_weight_def add_pos_nonneg del: fcard_0_eq)
qed

lemma sum_list_pos:
  fixes f :: "'a \<Rightarrow> real"
  shows "xs \<noteq> [] \<Longrightarrow> \<forall>x\<in>set xs. 0 < f x \<Longrightarrow> 0 < sum_list (map f xs)"
proof (induction xs)
  case Nil
  then show ?case by simp
next
  case (Cons a xs)
  show ?case
  proof (cases "xs = []")
    case True
    then show ?thesis using Cons.prems(2) by simp
  next
    case False
    have "0 < sum_list (map f xs)"
      using Cons.IH [OF False] Cons.prems(2) by simp
    moreover have "0 < f a"
      using Cons.prems(2) by simp
    ultimately show ?thesis by simp
  qed
qed

lemma transition_model_valid_damping:
  assumes "0 < d" and "d < 1" and "p \<in> set (keys corpus)"
  shows "\<exists>dist. transition_model corpus p d = Inr dist \<and> length dist = length corpus
        \<and> 0 < sum_list (dict_values dist)"
proof -
  obtain links where links: "map_of corpus p = Some links"
    using key_lookup [OF assms(3)] by blast
  have N: "0 < length corpus"
    using links by (rule map_of_Some_nonempty)
  then have "keys corpus \<noteq> []"
    by (simp add: keys_def)
  then have "0 < sum_list (map (link_weight (length corpus) links d) (keys corpus))"
    using link_weight_pos [OF assms(1,2) N, of links] by (intro sum_list_pos) simp_all
  then show ?thesis
    by (simp add: transition_model_eq [OF links] dict_values_def comp_def keys_def)
qed

lemma transition_model_valid_corpus:
  assumes "is_dict corpus" and "corpus_invariant corpus" and "p \<in> set (keys corpus)"
  shows "\<exists>dist. transition_model corpus p d = Inr dist \<and> length dist = length corpus
        \<and> 0 < sum_list (dict_values dist)"
proof -
  obtain links where links: "map_of corpus p = Some links"
    using key_lookup [OF assms(3)] by blast
  show ?thesis
    using transition_model_sum [OF assms(1,2) links, of d]
    by (simp add: transition_model_eq [OF links] dict_values_def comp_def keys_def)
qed

lemma initial_entries:
  assumes "corpus \<noteq> []"
  shows "for_each (keys corpus) (\<lambda>p.
             case py_div 1 (real (length corpus)) of
               Inl e \<Rightarrow> Inl e
             | Inr v \<Rightarrow> Inr ((p, v), (p, 0::int)))
       = Inr (map (\<lambda>p. ((p, 1 / real (length corpus)), (p, 0))) (keys corpus))"
  using assms by (intro for_each_Inr) (simp add: py_div_nonzero)

lemma normalise_counts:
  assumes "n \<noteq> 0"
  shows "for_each sd (\<lambda>(k, c).
             case py_div (real_of_int c) (real_of_int n) of
               Inl e \<Rightarrow> Inl e
             | Inr v \<Rightarrow> Inr (k, v))
       = Inr (map (\<lambda>(k, c). (k, real_of_int c / real_of_int n)) sd)"
  using assms by (intro for_each_Inr) (auto simp: py_div_nonzero)

lemma sample_pagerank_unfold:
  assumes "corpus \<noteq> []" and "n \<noteq> 0"
  shows "sample_pagerank corpus d n rnd =
    (case sample_loop corpus d rnd (nat n) 0
            (map (\<lambda>p. (p, 1 / real (length corpus))) (keys corpus))
            (map (\<lambda>p. (p, 0)) (keys corpus)) of
       Inl e \<Rightarrow> Inl e
     | Inr sd \<Rightarrow> Inr (map (\<lambda>(k, c). (k, real_of_int c / real_of_int n)) sd))"
  by (simp add: sample_pagerank_def initial_entries [OF assms(1)] normalise_counts [OF assms(2)]
      comp_def split: sum.splits)

lemma member_le_sum_list_int:
  fixes xs :: "int list"
  shows "\<forall>x\<in>set xs. 0 \<le> x \<Longrightarrow> c \<in> set xs \<Longrightarrow> c \<le> sum_list xs"
proof (induction xs)
  case Nil
  then show ?case by simp
next
  case (Cons x xs)
  have tail: "0 \<le> sum_list xs"
    using Cons.prems(1) by (intro sum_list_nonneg) simp
  have head: "0 \<le> x"
    using Cons.prems(1) by simp
  show ?case
  proof (cases "c = x")
    case True
    then show ?thesis using tail by simp
  next
    case False
    then have "c \<le> sum_list xs"
      using Cons.IH Cons.prems by simp
    then show ?thesis using head by simp
  qed
qed

lemma counts_nonneg:
  assumes "list_all2 (\<lambda>a b. snd a \<le> snd b) (map (\<lambda>p. (p, 0::int)) ks) sd"
    and "c \<in> set (dict_values sd)"
  shows "0 \<le> c"
proof -
  from assms(2) obtain j where j: "j < length sd" and c: "c = snd (sd ! j)"
    by (auto simp: dict_values_def in_set_conv_nth)
  have "length (map (\<lambda>p. (p, 0::int)) ks) = length sd"
    using assms(1) by (rule list_all2_lengthD)
  then have "snd (map (\<lambda>p. (p, 0::int)) ks ! j) \<le> snd (sd ! j)"
    using assms(1) j by (intro list_all2_nthD [where P = "\<lambda>a b. snd a \<le> snd b"]) simp_all
  then show ?thesis
    using j c \<open>length (map (\<lambda>p. (p, 0::int)) ks) = length sd\<close> by simp
qed

lemma sum_list_normalised:
  "n \<noteq> 0 \<Longrightarrow>
   sum_list (dict_values (map (\<lambda>(k, c). (k, real_of_int c / real_of_int n)) sd))
     = real_of_int (sum_list (dict_values sd)) / real_of_int n"
  by (induction sd) (auto simp: dict_values_def add_divide_distrib)

text \<open>The shape of every result of the sampling estimator.\<close>

lemma sample_pagerank_shape:
  assumes "corpus \<noteq> []" and "1 \<le> n" and "sample_pagerank corpus d n rnd = Inr res"
  shows "\<exists>counts. keys counts = keys corpus
           \<and> (\<forall>c\<in>set (dict_values counts). 0 \<le> c \<and> c \<le> n)
           \<and> sum_list (dict_values counts) = n
           \<and> res = map (\<lambda>(k, c). (k, real_of_int c / real_of_int n)) counts
           \<and> sum_list (dict_values res) = 1"
proof -
  have n: "n \<noteq> 0" using assms(2) by simp
  let ?sd0 = "map (\<lambda>p. (p, 0::int)) (keys corpus)"
  from assms(3) obtain sd where
    loop: "sample_loop corpus d rnd (nat n) 0
            (map (\<lambda>p. (p, 1 / real (length corpus))) (keys corpus)) ?sd0 = Inr sd"
    and res: "res = map (\<lambda>(k, c). (k, real_of_int c / real_of_int n)) sd"
    by (auto simp: sample_pagerank_unfold [OF assms(1) n] split: sum.splits)
  note inv = sample_loop_counts [OF loop]
  have k: "keys sd = keys corpus"
    using inv by (simp add: keys_def comp_def)
  have s: "sum_list (dict_values sd) = n"
    using inv assms(2) by (simp add: dict_values_def comp_def)
  have nonneg: "\<And>c. c \<in> set (dict_values sd) \<Longrightarrow> 0 \<le> c"
    using inv counts_nonneg by blast
  have le: "\<And>c. c \<in> set (dict_values sd) \<Longrightarrow> c \<le> n"
    using member_le_sum_list_int [of "dict_values sd"] nonneg s by auto
  have "sum_list (dict_values res) = 1"
    using n s by (simp add: res sum_list_normalised)
  then show ?thesis
    using k s nonneg le res by blast
qed

lemma sample_pagerank_returns:
  assumes tm: "\<And>p. p \<in> set (keys corpus) \<Longrightarrow>
      \<exists>dist. transition_model corpus p d = Inr dist \<and> length dist = length corpus
        \<and> 0 < sum_list (dict_values dist)"
    and "corpus \<noteq> []" and "1 \<le> n"
  shows "\<exists>res. sample_pagerank corpus d n rnd = Inr res"
proof -
  have n: "n \<noteq> 0" using assms(3) by simp
  let ?prob0 = "map (\<lambda>p. (p, 1 / real (length corpus))) (keys corpus)"
  have "sum_list (dict_values ?prob0) = 1"
    using assms(2) by (simp add: dict_values_def comp_def sum_list_triv keys_def)
  then have "0 < sum_list (dict_values ?prob0)"
    by simp
  moreover have "length ?prob0 = length corpus"
    by (simp add: keys_def)
  moreover have "keys (map (\<lambda>p. (p, 0::int)) (keys corpus)) = keys corpus"
    by (simp add: keys_def comp_def)
  ultimately obtain sd where
    "sample_loop corpus d rnd (nat n) 0 ?prob0 (map (\<lambda>p. (p, 0)) (keys corpus)) = Inr sd"
    using sample_loop_returns [OF tm assms(2), of ?prob0 "map (\<lambda>p. (p, 0)) (keys corpus)"]
    by blast
  then show ?thesis
    by (simp add: sample_pagerank_unfold [OF assms(2) n])
qed

section \<open>One pass of the iterative estimator in closed form\<close>

lemma getitem_ranks_of: "p \<in> set ks \<Longrightarrow> getitem (ranks_of ks x) p = Inr (x p)"
  by (simp add: ranks_of_def getitem_Some map_of_tabulate)

lemma keys_ranks_of: "keys (ranks_of ks x) = ks"
  by (simp add: ranks_of_def keys_def comp_def)

lemma values_ranks_of: "dict_values (ranks_of ks x) = map x ks"
  by (simp add: ranks_of_def dict_values_def comp_def)

lemma ranks_of_cong: "(\<And>p. p \<in> set ks \<Longrightarrow> x p = y p) \<Longrightarrow> ranks_of ks x = ranks_of ks y"
  by (simp add: ranks_of_def)

lemma sum_pri_loop_eq:
  assumes "set js \<subseteq> set (keys corpus)"
  shows "sum_pri_loop corpus (length corpus) (ranks_of (keys corpus) x) p js acc
       = Inr (acc + (\<Sum>i\<leftarrow>js. x i * contribution corpus i p))"
  using assms
proof (induction js arbitrary: acc)
  case Nil
  then show ?case by simp
next
  case (Cons i js)
  have i: "i \<in> set (keys corpus)" and js: "set js \<subseteq> set (keys corpus)"
    using Cons.prems by simp_all
  obtain links where links: "map_of corpus i = Some links"
    using key_lookup [OF i] by blast
  have N: "real (length corpus) \<noteq> 0"
    using map_of_Some_nonempty [OF links] by simp
  note IH = Cons.IH [OF js]
  show ?case
  proof (cases "fcard links = 0")
    case True
    then show ?thesis
      using N by (simp add: getitem_Some [OF links] getitem_ranks_of [OF i] py_div_nonzero IH
          contribution_def links add.assoc)
  next
    case False
    then have L: "real (fcard links) \<noteq> 0" by simp
    show ?thesis
      using False
      by (simp add: getitem_Some [OF links] getitem_ranks_of [OF i] py_div_nonzero [OF L] IH
          contribution_def links add.assoc)
  qed
qed

lemma update_tabulate:
  assumes "distinct ks" and "p \<in> set ks"
  shows "AList.update p v (map (\<lambda>q. (q, y q)) ks) = map (\<lambda>q. (q, (y(p := v)) q)) ks"
  using assms
proof (induction ks)
  case Nil
  then show ?case by simp
next
  case (Cons k ks)
  show ?case
  proof (cases "k = p")
    case True
    then have "p \<notin> set ks"
      using Cons.prems(1) by simp
    then have "map (\<lambda>q. (q, (y(p := v)) q)) ks = map (\<lambda>q. (q, y q)) ks"
      by (intro map_cong) auto
    then show ?thesis
      using True by simp
  next
    case False
    then show ?thesis
      using Cons by simp
  qed
qed

lemma pass_loop_eq:
  assumes "is_dict corpus" and "set ps \<subseteq> set (keys corpus)"
  shows "pass_loop corpus d (length corpus) (ranks_of (keys corpus) x) ps
           (ranks_of (keys corpus) y) m
       = Inr (ranks_of (keys corpus) (\<lambda>q. if q \<in> set ps then update_rank corpus d x q else y q),
              max_change ps x (update_rank corpus d x) m)"
  using assms(2)
proof (induction ps arbitrary: y m)
  case Nil
  then show ?case by (simp add: max_change_def)
next
  case (Cons p ps)
  let ?ks = "keys corpus"
  let ?U = "update_rank corpus d x"
  have p: "p \<in> set ?ks" and ps: "set ps \<subseteq> set ?ks"
    using Cons.prems by simp_all
  have N: "real (length corpus) \<noteq> 0"
    using p by (auto simp: keys_def)
  have sum: "sum_pri_loop corpus (length corpus) (ranks_of ?ks x) p ?ks 0
      = Inr (\<Sum>i\<leftarrow>?ks. x i * contribution corpus i p)"
    using sum_pri_loop_eq [of ?ks corpus x p 0] by simp
  have fold: "(1 - d) / real (length corpus)
      + d * (\<Sum>i\<leftarrow>?ks. x i * contribution corpus i p) = ?U p"
    by (simp add: update_rank_def)
  have upd: "AList.update p (?U p) (ranks_of ?ks y) = ranks_of ?ks (y(p := ?U p))"
    unfolding ranks_of_def
    using assms(1) p by (intro update_tabulate) (simp_all add: is_dict_def keys_def)
  have same: "ranks_of ?ks (\<lambda>q. if q \<in> set ps then ?U q else (y(p := ?U p)) q)
      = ranks_of ?ks (\<lambda>q. if q \<in> set (p # ps) then ?U q else y q)"
    by (intro ranks_of_cong) simp
  have "pass_loop corpus d (length corpus) (ranks_of ?ks x) (p # ps) (ranks_of ?ks y) m
      = pass_loop corpus d (length corpus) (ranks_of ?ks x) ps (ranks_of ?ks (y(p := ?U p)))
          (max m \<bar>?U p - x p\<bar>)"
    by (simp add: sum py_div_nonzero [OF N] Let_def fold upd getitem_ranks_of [OF p])
  then show ?case
    by (simp only: Cons.IH [OF ps] same) (simp add: max_change_def)
qed

lemma full_pass_eq:
  assumes "is_dict corpus"
  shows "pass_loop corpus d (length corpus) (ranks_of (keys corpus) x) (keys corpus)
           (ranks_of (keys corpus) x) 0
       = Inr (ranks_of (keys corpus) (update_rank corpus d x),
              max_change (keys corpus) x (update_rank corpus d x) 0)"
proof -
  have "ranks_of (keys corpus)
          (\<lambda>q. if q \<in> set (keys corpus) then update_rank corpus d x q else x q)
      = ranks_of (keys corpus) (update_rank corpus d x)"
    by (intro ranks_of_cong) simp
  then show ?thesis
    using pass_loop_eq [OF assms, of "keys corpus" d x x 0] by simp
qed

section \<open>Mass conservation and contraction of the rank update\<close>

lemma length_keys: "length (keys d) = length d"
  by (simp add: keys_def)


lemma contribution_column:
  assumes "is_dict corpus" and "map_of corpus i = Some links"
  shows "(\<Sum>p\<leftarrow>keys corpus. contribution corpus i p)
       = (if fcard links = 0 then 1
          else real (card (fset links \<inter> set (keys corpus))) / real (fcard links))"
proof -
  have ks: "distinct (keys corpus)"
    using assms(1) by (simp add: is_dict_def keys_def)
  have N: "real (length corpus) \<noteq> 0"
    using map_of_Some_nonempty [OF assms(2)] by simp
  show ?thesis
  proof (cases "fcard links = 0")
    case True
    then have "contribution corpus i = (\<lambda>p. 1 / real (length corpus))"
      by (simp add: contribution_def assms(2) fun_eq_iff)
    then show ?thesis
      using True N by (simp add: sum_list_triv length_keys)
  next
    case False
    then have "contribution corpus i = (\<lambda>p. if p |\<in>| links then 1 / real (fcard links) else 0)"
      by (simp add: contribution_def assms(2) fun_eq_iff)
    then show ?thesis
      using False by (simp add: sum_list_indicator [OF ks])
  qed
qed


lemma contribution_column_eq:
  assumes "is_dict corpus" and "corpus_invariant corpus" and "i \<in> set (keys corpus)"
  shows "(\<Sum>p\<leftarrow>keys corpus. contribution corpus i p) = 1"
proof -
  obtain links where links: "map_of corpus i = Some links"
    using key_lookup [OF assms(3)] by blast
  have "fset links \<inter> set (keys corpus) = fset links"
    using invariant_links [OF assms(2) links] by blast
  then show ?thesis
    by (simp add: contribution_column [OF assms(1) links] fcard.rep_eq)
qed

lemma sum_list_swap:
  fixes f :: "'a \<Rightarrow> 'b \<Rightarrow> real"
  shows "(\<Sum>p\<leftarrow>ps. \<Sum>i\<leftarrow>js. f i p) = (\<Sum>i\<leftarrow>js. \<Sum>p\<leftarrow>ps. f i p)"
  by (induction ps) (simp_all add: sum_list_addf)

lemma sum_update_rank:
  assumes "is_dict corpus" and "corpus_invariant corpus" and "corpus \<noteq> []"
  shows "(\<Sum>p\<leftarrow>keys corpus. update_rank corpus d x p) = (1 - d) + d * (\<Sum>i\<leftarrow>keys corpus. x i)"
proof -
  let ?ks = "keys corpus"
  have N: "real (length corpus) \<noteq> 0"
    using assms(3) by simp
  have "(\<Sum>p\<leftarrow>?ks. update_rank corpus d x p)
      = (\<Sum>p\<leftarrow>?ks. (1 - d) / real (length corpus))
        + d * (\<Sum>p\<leftarrow>?ks. \<Sum>i\<leftarrow>?ks. x i * contribution corpus i p)"
    by (simp add: update_rank_def [abs_def] sum_list_addf sum_list_const_mult)
  also have "(\<Sum>p\<leftarrow>?ks. (1 - d) / real (length corpus)) = 1 - d"
    using N by (simp add: sum_list_triv length_keys)
  also have "(\<Sum>p\<leftarrow>?ks. \<Sum>i\<leftarrow>?ks. x i * contribution corpus i p)
      = (\<Sum>i\<leftarrow>?ks. x i * (\<Sum>p\<leftarrow>?ks. contribution corpus i p))"
    by (simp add: sum_list_swap [of _ ?ks ?ks] sum_list_const_mult)
  also have "\<dots> = (\<Sum>i\<leftarrow>?ks. x i)"
    by (intro arg_cong [where f = sum_list] map_cong refl)
      (simp add: contribution_column_eq [OF assms(1,2)])
  finally show ?thesis .
qed








section \<open>The convergence loop\<close>

lemma initial_ranks_eq:
  "initial_ranks corpus = Inr (ranks_of (keys corpus) (\<lambda>p. 1 / real (length corpus)))"
proof -
  have "p \<in> set (keys corpus) \<Longrightarrow> real (length corpus) \<noteq> 0" for p
    by (auto simp: keys_def)
  then show ?thesis
    unfolding initial_ranks_def Let_def ranks_of_def
    by (intro for_each_Inr) (simp add: py_div_nonzero)
qed

lemma run_passes_eq:
  assumes "is_dict corpus"
  shows "run_passes corpus d k
       = Inr (ranks_of (keys corpus) ((update_rank corpus d ^^ k) (\<lambda>p. 1 / real (length corpus))),
              case k of
                0 \<Rightarrow> 11 / 10000
              | Suc j \<Rightarrow>
                  max_change (keys corpus)
                    ((update_rank corpus d ^^ j) (\<lambda>p. 1 / real (length corpus)))
                    ((update_rank corpus d ^^ Suc j) (\<lambda>p. 1 / real (length corpus))) 0)"
proof (induction k)
  case 0
  then show ?case by (simp add: initial_ranks_eq)
next
  case (Suc k)
  then show ?case by (simp add: full_pass_eq [OF assms])
qed


lemma sum_iterated_ranks:
  assumes "is_dict corpus" and "corpus_invariant corpus" and "corpus \<noteq> []"
  shows "(\<Sum>p\<leftarrow>keys corpus. (update_rank corpus d ^^ k) (\<lambda>p. 1 / real (length corpus)) p) = 1"
proof (induction k)
  case 0
  then show ?case
    using assms(3) by (simp add: sum_list_triv length_keys)
next
  case (Suc k)
  then show ?case
    by (simp add: sum_update_rank [OF assms])
qed

lemma dict_as_ranks:
  assumes "distinct (map fst prev)"
  shows "prev = ranks_of (keys prev) (\<lambda>p. the (map_of prev p))"
  using assms
proof (induction prev)
  case Nil
  then show ?case by (simp add: ranks_of_def keys_def)
next
  case (Cons e prev)
  have notin: "fst e \<notin> set (map fst prev)" and dist: "distinct (map fst prev)"
    using Cons.prems by simp_all
  have "map (\<lambda>p. (p, the (map_of (e # prev) p))) (map fst prev)
      = map (\<lambda>p. (p, the (map_of prev p))) (map fst prev)"
  proof (rule map_cong [OF refl])
    fix p assume "p \<in> set (map fst prev)"
    then have "p \<noteq> fst e"
      using notin by blast
    then show "(p, the (map_of (e # prev) p)) = (p, the (map_of prev p))"
      by (cases e) simp
  qed
  also have "\<dots> = prev"
    using Cons.IH [OF dist] by (simp add: ranks_of_def keys_def)
  finally have tail: "map (\<lambda>p. (p, the (map_of (e # prev) p))) (map fst prev) = prev" .
  have "ranks_of (keys (e # prev)) (\<lambda>p. the (map_of (e # prev) p))
      = (fst e, the (map_of (e # prev) (fst e)))
        # map (\<lambda>p. (p, the (map_of (e # prev) p))) (map fst prev)"
    by (simp add: ranks_of_def keys_def)
  also have "\<dots> = e # prev"
    by (simp only: tail) (cases e, simp)
  finally show ?case by simp
qed

lemma full_pass_preserves_sum:
  assumes "is_dict corpus" and "corpus_invariant corpus" and "corpus \<noteq> []"
    and "keys prev = keys corpus" and "sum_list (dict_values prev) = 1"
  shows "\<exists>r m. pass_loop corpus d (length corpus) prev (keys corpus) prev 0 = Inr (r, m)
           \<and> keys r = keys corpus \<and> sum_list (dict_values r) = 1"
proof -
  let ?x = "\<lambda>p. the (map_of prev p)"
  have "distinct (map fst prev)"
    using assms(1,4) by (simp add: is_dict_def keys_def)
  then have prev: "prev = ranks_of (keys corpus) ?x"
    using dict_as_ranks [of prev] assms(4) by simp
  have "(\<Sum>p\<leftarrow>keys corpus. ?x p) = 1"
    using assms(5) by (subst (asm) prev) (simp add: values_ranks_of)
  then have "(\<Sum>p\<leftarrow>keys corpus. update_rank corpus d ?x p) = 1"
    by (simp add: sum_update_rank [OF assms(1,2,3)])
  then have "sum_list (dict_values (ranks_of (keys corpus) (update_rank corpus d ?x))) = 1"
    by (simp add: values_ranks_of)
  moreover have "pass_loop corpus d (length corpus) prev (keys corpus) prev 0
      = Inr (ranks_of (keys corpus) (update_rank corpus d ?x),
             max_change (keys corpus) ?x (update_rank corpus d ?x) 0)"
    by (subst (1 2) prev) (rule full_pass_eq [OF assms(1)])
  ultimately show ?thesis
    by (simp add: keys_ranks_of)
qed

lemma while_loop_never_raises:
  assumes "while_loop corpus d N new_prob m = Some y"
  shows "is_dict corpus \<longrightarrow> N = length corpus
           \<longrightarrow> (\<exists>x. new_prob = ranks_of (keys corpus) x) \<longrightarrow> (\<exists>r. y = Inr r)"
proof (rule while_loop.raw_induct
    [where P = "\<lambda>corpus d N new_prob m y. is_dict corpus \<longrightarrow> N = length corpus
           \<longrightarrow> (\<exists>x. new_prob = ranks_of (keys corpus) x) \<longrightarrow> (\<exists>r. y = Inr r)"
      and damping_factor = d and max_diff = m], goal_cases)
  case (1 loop corpus d N new_prob m y)
  show ?case
  proof (intro impI)
    assume dict: "is_dict corpus" and N: "N = length corpus"
      and "\<exists>x. new_prob = ranks_of (keys corpus) x"
    then obtain x where x: "new_prob = ranks_of (keys corpus) x"
      by blast
    show "\<exists>r. y = Inr r"
    proof (cases "1 / 1000 < m")
      case True
      then have "loop corpus d (length corpus) (ranks_of (keys corpus) (update_rank corpus d x))
          (max_change (keys corpus) x (update_rank corpus d x) 0) = Some y"
        using 1(2) by (simp add: N x full_pass_eq [OF dict])
      then show ?thesis
        using 1(1) dict by blast
    next
      case False
      then show ?thesis
        using 1(2) by auto
    qed
  qed
next
  case 2
  show ?case by (rule assms)
qed

lemma iterate_pagerank_never_raises:
  assumes "is_dict corpus"
  shows "iterate_pagerank corpus d \<noteq> Some (Inl e)"
proof
  assume "iterate_pagerank corpus d = Some (Inl e)"
  then have "while_loop corpus d (length corpus)
      (ranks_of (keys corpus) (\<lambda>p. 1 / real (length corpus))) (11 / 10000) = Some (Inl e)"
    by (simp add: iterate_pagerank_def initial_ranks_eq)
  from while_loop_never_raises [OF this] assms show False
    by blast
qed

lemma while_loop_result:
  assumes "while_loop corpus d N new_prob m = Some y"
  shows "is_dict corpus \<longrightarrow> N = length corpus
           \<longrightarrow> (\<forall>x. new_prob = ranks_of (keys corpus) x
                 \<longrightarrow> (\<exists>j. y = Inr (ranks_of (keys corpus) ((update_rank corpus d ^^ j) x))))"
proof (rule while_loop.raw_induct
    [where P = "\<lambda>corpus d N new_prob m y. is_dict corpus \<longrightarrow> N = length corpus
           \<longrightarrow> (\<forall>x. new_prob = ranks_of (keys corpus) x
                 \<longrightarrow> (\<exists>j. y = Inr (ranks_of (keys corpus) ((update_rank corpus d ^^ j) x))))"
      and max_diff = m], goal_cases)
  case (1 loop corpus d N new_prob m y)
  show ?case
  proof (intro impI allI)
    fix x
    assume dict: "is_dict corpus" and N: "N = length corpus"
      and x: "new_prob = ranks_of (keys corpus) x"
    show "\<exists>j. y = Inr (ranks_of (keys corpus) ((update_rank corpus d ^^ j) x))"
    proof (cases "1 / 1000 < m")
      case True
      then have "loop corpus d (length corpus) (ranks_of (keys corpus) (update_rank corpus d x))
          (max_change (keys corpus) x (update_rank corpus d x) 0) = Some y"
        using 1(2) by (simp add: N x full_pass_eq [OF dict])
      then obtain j where
        "y = Inr (ranks_of (keys corpus) ((update_rank corpus d ^^ j) (update_rank corpus d x)))"
        using 1(1) dict by blast
      then have "y = Inr (ranks_of (keys corpus) ((update_rank corpus d ^^ Suc j) x))"
        by (simp add: funpow_swap1)
      then show ?thesis by blast
    next
      case False
      then have "y = Inr (ranks_of (keys corpus) ((update_rank corpus d ^^ 0) x))"
        using 1(2) by (simp add: x)
      then show ?thesis by blast
    qed
  qed
next
  case 2
  show ?case by (rule assms)
qed

lemma iterate_pagerank_result:
  assumes "is_dict corpus" and "iterate_pagerank corpus d = Some (Inr r)"
  shows "\<exists>j. r = ranks_of (keys corpus)
           ((update_rank corpus d ^^ j) (\<lambda>p. 1 / real (length corpus)))"
proof -
  have "while_loop corpus d (length corpus)
      (ranks_of (keys corpus) (\<lambda>p. 1 / real (length corpus))) (11 / 10000) = Some (Inr r)"
    using assms(2) by (simp add: iterate_pagerank_def initial_ranks_eq)
  from while_loop_result [OF this] assms(1) show ?thesis
    by blast
qed

lemma choices_error:
  assumes "pop \<noteq> []" and "choices pop ws u = Inl e"
  shows "e = ValueError"
  using assms by (auto simp: choices_def Let_def split: if_splits)

lemma sample_loop_outcome:
  assumes "corpus \<noteq> []"
  shows "keys sd = keys corpus \<Longrightarrow>
         (\<exists>sd'. sample_loop corpus d rnd k i prob sd = Inr sd')
           \<or> sample_loop corpus d rnd k i prob sd = Inl ValueError"
proof (induction k arbitrary: i prob sd)
  case 0
  then show ?case by simp
next
  case (Suc k)
  have pop: "keys corpus \<noteq> []"
    using assms by (simp add: keys_def)
  show ?case
  proof (cases "choices (keys corpus) (dict_values prob) (rnd i)")
    case (Inl e)
    then have "e = ValueError"
      using choices_error [OF pop] by blast
    then show ?thesis
      using Inl by simp
  next
    case (Inr cp)
    then have cp: "cp \<in> set (keys corpus)"
      by (rule choices_member)
    obtain sd1 where inc: "increment sd cp = Inr sd1" and k1: "keys sd1 = keys corpus"
      using increment_ok [of cp sd] cp Suc.prems by auto
    obtain links where links: "map_of corpus cp = Some links"
      using key_lookup [OF cp] by blast
    note t = transition_model_eq [OF links, of d]
    show ?thesis
      using Suc.IH [OF k1] by (simp add: Inr inc t)
  qed
qed

lemma sample_pagerank_outcome:
  assumes "corpus \<noteq> []" and "1 \<le> n"
  shows "(\<exists>res. sample_pagerank corpus d n rnd = Inr res)
       \<or> sample_pagerank corpus d n rnd = Inl ValueError"
proof -
  have n: "n \<noteq> 0" using assms(2) by simp
  have "keys (map (\<lambda>p. (p, 0::int)) (keys corpus)) = keys corpus"
    by (simp add: keys_def comp_def)
  from sample_loop_outcome [OF assms(1) this, where d = d and rnd = rnd and k = "nat n"
      and i = 0 and prob = "map (\<lambda>p. (p, 1 / real (length corpus))) (keys corpus)"]
  show ?thesis
    unfolding sample_pagerank_unfold [OF assms(1) n]
    by (auto split: sum.splits)
qed

section \<open>The convergence loop in binary64 arithmetic\<close>

text \<open>
  \<open>round64\<close> on the literals \<^verbatim>\<open>0.1\<close> and \<^verbatim>\<open>0.001\<close>, and on the two ties that decide the
  passes below.
\<close>

lemma round64_examples:
  "round64 (1 / 10) = 3602879701896397 / 2 ^ 55"
  "round64 (1 / 1000) = 1152921504606847 / 2 ^ 60"
  "round64 (1 / 2 - 1 / 2 ^ 55) = 1 / 2"
  "round64 (1 / 4 + 1 / 2 ^ 55) = 1 / 4"
  by code_simp+

lemma bit_length_pos: "0 < n \<Longrightarrow> 0 < bit_length n"
  by (subst bit_length.simps) simp

lemma bit_length_bounds:
  "0 < n \<Longrightarrow> 2 ^ (bit_length n - 1) \<le> n \<and> n < 2 ^ bit_length n"
proof (induction n rule: bit_length.induct)
  case (1 n)
  have unfold: "bit_length n = Suc (bit_length (n div 2))"
    using "1.prems" by (subst bit_length.simps) simp
  show ?case
  proof (cases "n div 2 = 0")
    case True
    then have "n = 1"
      using "1.prems" by presburger
    moreover have "bit_length 0 = 0"
      by (subst bit_length.simps) simp
    moreover have "bit_length 1 = 1"
      by (subst bit_length.simps) (simp add: \<open>bit_length 0 = 0\<close>)
    ultimately show ?thesis
      by simp
  next
    case False
    then have pos: "0 < n div 2"
      using "1.prems" by presburger
    have "\<not> n \<le> 0"
      using "1.prems" by simp
    from "1.IH" [OF this pos]
    have lo: "2 ^ (bit_length (n div 2) - 1) \<le> n div 2"
      and hi: "n div 2 < 2 ^ bit_length (n div 2)"
      by simp_all
    obtain k where k: "bit_length (n div 2) = Suc k"
      using bit_length_pos [OF pos] by (cases "bit_length (n div 2)") auto
    have "(2::int) ^ Suc k \<le> 2 * (n div 2)"
      using lo by (simp add: k)
    also have "\<dots> \<le> n"
      by presburger
    finally have a: "(2::int) ^ Suc k \<le> n" .
    have "n < 2 * (n div 2 + 1)"
      by presburger
    also have "\<dots> \<le> 2 * 2 ^ Suc k"
      using hi by (simp add: k)
    finally have b: "n < 2 ^ Suc (Suc k)"
      by simp
    show ?thesis
      using a b by (simp add: unfold k)
  qed
qed

lemma binade_bounds:
  assumes "x \<noteq> 0"
  shows "2 powi binade x \<le> \<bar>x\<bar> \<and> \<bar>x\<bar> < 2 powi (binade x + 1)"
proof (cases "1 \<le> \<bar>x\<bar>")
  case True
  let ?n = "\<lfloor>\<bar>x\<bar>\<rfloor>"
  have n: "0 < ?n"
    using True by simp
  obtain k where k: "bit_length ?n = Suc k"
    using bit_length_pos [OF n] by (cases "bit_length ?n") auto
  have e: "binade x = int k"
    using True by (simp add: binade_def k)
  from bit_length_bounds [OF n] have "2 ^ k \<le> ?n" and "?n < 2 ^ Suc k"
    by (simp_all add: k)
  then have "?n + 1 \<le> 2 ^ Suc k"
    by simp
  then have "real_of_int (?n + 1) \<le> real_of_int (2 ^ Suc k)"
    by (rule of_int_le_iff [THEN iffD2])
  then have "real_of_int ?n + 1 \<le> 2 ^ Suc k"
    by simp
  moreover have "\<bar>x\<bar> < real_of_int ?n + 1"
    by linarith
  ultimately have up: "\<bar>x\<bar> < 2 ^ Suc k"
    by linarith
  have "real_of_int (2 ^ k) \<le> real_of_int ?n"
    using \<open>2 ^ k \<le> ?n\<close> by (rule of_int_le_iff [THEN iffD2])
  then have "2 ^ k \<le> real_of_int ?n"
    by simp
  moreover have "real_of_int ?n \<le> \<bar>x\<bar>"
    by linarith
  ultimately have low: "2 ^ k \<le> \<bar>x\<bar>"
    by linarith
  show ?thesis
    using low up by (simp add: e power_int_add power_int_def nat_add_distrib)
next
  case False
  let ?y = "1 / \<bar>x\<bar>"
  let ?c = "\<lceil>?y\<rceil>"
  have x: "0 < \<bar>x\<bar>" "\<bar>x\<bar> < 1"
    using assms False by simp_all
  then have y: "1 < ?y"
    by simp
  then have c: "0 < ?c - 1"
    by (simp add: less_ceiling_iff)
  obtain k where k: "bit_length (?c - 1) = Suc k"
    using bit_length_pos [OF c] by (cases "bit_length (?c - 1)") auto
  have e: "binade x = - int (Suc k)"
    using False by (simp add: binade_def k)
  from bit_length_bounds [OF c] have "2 ^ k \<le> ?c - 1" and "?c - 1 < 2 ^ Suc k"
    by (simp_all add: k)
  then have "real_of_int (2 ^ k) \<le> real_of_int (?c - 1)" and "real_of_int ?c \<le> real_of_int (2 ^ Suc k)"
    by (simp_all only: of_int_le_iff)
  then have c1: "2 ^ k \<le> real_of_int ?c - 1" and c2: "real_of_int ?c \<le> 2 ^ Suc k"
    by simp_all
  have c3: "real_of_int ?c - 1 < ?y" and c4: "?y \<le> real_of_int ?c"
    by linarith+
  have "2 ^ k < ?y"
    using c1 c3 by linarith
  moreover have "?y \<le> 2 ^ Suc k"
    using c2 c4 by linarith
  ultimately have "2 ^ k < ?y" and "?y \<le> 2 ^ Suc k"
    by blast+
  then have "\<bar>x\<bar> < 1 / 2 ^ k" and "1 / 2 ^ Suc k \<le> \<bar>x\<bar>"
    using x(1) by (simp_all add: field_simps)
  moreover have "(2::real) powi (- int (Suc k)) = 1 / 2 ^ Suc k"
    by (simp only: power_int_minus power_int_of_nat inverse_eq_divide)
  moreover have "- int (Suc k) + 1 = - int k"
    by simp
  then have "(2::real) powi (- int (Suc k) + 1) = 1 / 2 ^ k"
    by (simp only: power_int_minus power_int_of_nat inverse_eq_divide)
  ultimately show ?thesis
    by (simp only: e)
qed









section \<open>The sampling estimator\<close>

text \<open>
  C6 (distribution validity of the sampler). For a non-empty corpus, a damping factor in
  \<open>(0, 1)\<close> and \<open>n \<ge> 1\<close>, \<open>sample_pagerank\<close> returns, for every random source, a
  distribution whose keys are the keys of the corpus in the same order, whose values lie
  in \<open>[0, 1]\<close> and sum to \<open>1\<close>.
\<close>

theorem sample_pagerank_distribution:
  assumes "corpus \<noteq> []" and "0 < d" and "d < 1" and "1 \<le> n"
  shows "\<exists>res. sample_pagerank corpus d n rnd = Inr res \<and> keys res = keys corpus
           \<and> (\<forall>v\<in>set (dict_values res). 0 \<le> v \<and> v \<le> 1)
           \<and> sum_list (dict_values res) = 1"
proof -
  obtain res where res: "sample_pagerank corpus d n rnd = Inr res"
    using sample_pagerank_returns [OF transition_model_valid_damping [OF assms(2,3)] assms(1,4)]
    by blast
  obtain counts where k: "keys counts = keys corpus"
    and range: "\<forall>c\<in>set (dict_values counts). 0 \<le> c \<and> c \<le> n"
    and shape: "res = map (\<lambda>(k, c). (k, real_of_int c / real_of_int n)) counts"
    and total: "sum_list (dict_values res) = 1"
    using sample_pagerank_shape [OF assms(1,4) res] by blast
  have "keys res = keys corpus"
    using k by (simp add: shape keys_def comp_def case_prod_unfold)
  moreover have "\<forall>v\<in>set (dict_values res). 0 \<le> v \<and> v \<le> 1"
  proof
    fix v assume "v \<in> set (dict_values res)"
    then obtain c where c: "c \<in> set (dict_values counts)"
      and v: "v = real_of_int c / real_of_int n"
      by (force simp: shape dict_values_def)
    have "0 \<le> c" and "c \<le> n"
      using range c by simp_all
    then show "0 \<le> v \<and> v \<le> 1"
      using assms(4) by (simp add: v)
  qed
  ultimately show ?thesis
    using res total by blast
qed

theorem sample_pagerank_distribution_witness:
  "\<exists>res. sample_pagerank [(''A'', {|''B''|}), (''B'', {||})] (85 / 100) 3 (\<lambda>i. 1 / 2) = Inr res
     \<and> keys res = [''A'', ''B'']
     \<and> (\<forall>v\<in>set (dict_values res). 0 \<le> v \<and> v \<le> 1)
     \<and> sum_list (dict_values res) = 1"
  using sample_pagerank_distribution
    [of "[(''A'', {|''B''|}), (''B'', {||})]" "85 / 100" 3 "\<lambda>i. 1 / 2"]
  by (simp add: keys_def)

text \<open>
  C10 (visit counts). For a non-empty corpus and \<open>n \<ge> 1\<close>, whatever the random source
  draws: every result that \<open>sample_pagerank\<close> returns is obtained from integer visit
  counts \<open>c\<close>, one per page, with \<open>0 \<le> c \<le> n\<close> and total exactly \<open>n\<close>, each value being
  \<open>c / n\<close>, so the values sum to exactly \<open>1\<close>; and for a damping factor in \<open>(0, 1)\<close>
  a result is returned.
\<close>

theorem sample_pagerank_visit_counts:
  assumes "corpus \<noteq> []" and "1 \<le> n"
  shows "(0 < d \<and> d < 1 \<longrightarrow> (\<exists>res. sample_pagerank corpus d n rnd = Inr res))
       \<and> (\<forall>res. sample_pagerank corpus d n rnd = Inr res \<longrightarrow>
            (\<exists>counts. keys counts = keys corpus
               \<and> (\<forall>c\<in>set (dict_values counts). 0 \<le> c \<and> c \<le> n)
               \<and> sum_list (dict_values counts) = n
               \<and> res = map (\<lambda>(k, c). (k, real_of_int c / real_of_int n)) counts
               \<and> sum_list (dict_values res) = 1))"
proof (intro conjI impI allI)
  assume "0 < d \<and> d < 1"
  then show "\<exists>res. sample_pagerank corpus d n rnd = Inr res"
    using sample_pagerank_returns [OF transition_model_valid_damping assms] by blast
next
  fix res assume "sample_pagerank corpus d n rnd = Inr res"
  then show "\<exists>counts. keys counts = keys corpus
               \<and> (\<forall>c\<in>set (dict_values counts). 0 \<le> c \<and> c \<le> n)
               \<and> sum_list (dict_values counts) = n
               \<and> res = map (\<lambda>(k, c). (k, real_of_int c / real_of_int n)) counts
               \<and> sum_list (dict_values res) = 1"
    by (rule sample_pagerank_shape [OF assms])
qed

theorem sample_pagerank_visit_counts_witness:
  "sample_pagerank [(''A'', {|''B''|}), (''B'', {||})] (85 / 100) 2 (\<lambda>i. 0)
     = Inr [(''A'', 1), (''B'', 0)]
   \<and> (\<exists>counts. keys counts = keys [(''A'', {|''B''|}), (''B'', {||})]
        \<and> (\<forall>c\<in>set (dict_values counts). 0 \<le> c \<and> c \<le> 2)
        \<and> sum_list (dict_values counts) = 2
        \<and> [(''A'', 1), (''B'', 0)] = map (\<lambda>(k, c). (k, real_of_int c / real_of_int 2)) counts
        \<and> sum_list (dict_values [(''A'', 1 :: real), (''B'', 0)]) = 1)"
proof -
  have run: "sample_pagerank [(''A'', {|''B''|}), (''B'', {||})] (85 / 100) 2 (\<lambda>i. 0)
      = Inr [(''A'', 1), (''B'', 0)]"
    by code_simp
  have "(1::int) \<le> 2" and "[(''A'', {|''B''|}), (''B'', {||})] \<noteq> []"
    by simp_all
  from sample_pagerank_visit_counts [OF this(2,1), of "85 / 100" "\<lambda>i. 0"]
  have "\<forall>res. sample_pagerank [(''A'', {|''B''|}), (''B'', {||})] (85 / 100) 2 (\<lambda>i. 0) = Inr res \<longrightarrow>
            (\<exists>counts. keys counts = keys [(''A'', {|''B''|}), (''B'', {||})]
               \<and> (\<forall>c\<in>set (dict_values counts). 0 \<le> c \<and> c \<le> 2)
               \<and> sum_list (dict_values counts) = 2
               \<and> res = map (\<lambda>(k, c). (k, real_of_int c / real_of_int 2)) counts
               \<and> sum_list (dict_values res) = 1)"
    by (rule conjunct2)
  then show ?thesis
    using run by blast
qed

section \<open>The iterative estimator\<close>

text \<open>
  C4 (mass conservation of the iteration). For a non-empty dictionary that satisfies the
  corpus invariant and a damping factor in \<open>(0, 1)\<close>: the ranks after every number of
  passes, the initialisation included, are a distribution over the keys of the corpus
  that sums to \<open>1\<close>; one full pass maps every rank dictionary over these keys that sums
  to \<open>1\<close> to one that sums to \<open>1\<close>; and every distribution that \<open>iterate_pagerank\<close>
  returns has the keys of the corpus and sums to \<open>1\<close>. The sums are exact in the reals,
  so they hold of the program up to rounding.
\<close>

theorem iterate_pagerank_mass_conservation:
  assumes "corpus \<noteq> []" and "is_dict corpus" and "corpus_invariant corpus"
    and "0 < d" and "d < 1"
  shows "(\<forall>k. \<exists>r m. run_passes corpus d k = Inr (r, m) \<and> keys r = keys corpus
            \<and> sum_list (dict_values r) = 1)
       \<and> (\<forall>prev. keys prev = keys corpus \<and> sum_list (dict_values prev) = 1 \<longrightarrow>
            (\<exists>r m. pass_loop corpus d (length corpus) prev (keys corpus) prev 0 = Inr (r, m)
               \<and> keys r = keys corpus \<and> sum_list (dict_values r) = 1))
       \<and> (\<forall>r. iterate_pagerank corpus d = Some (Inr r) \<longrightarrow>
            keys r = keys corpus \<and> sum_list (dict_values r) = 1)"
proof (intro conjI allI impI)
  fix k
  show "\<exists>r m. run_passes corpus d k = Inr (r, m) \<and> keys r = keys corpus
      \<and> sum_list (dict_values r) = 1"
    using sum_iterated_ranks [OF assms(2,3,1), where d = d and k = k]
    by (simp add: run_passes_eq [OF assms(2)] keys_ranks_of values_ranks_of)
next
  fix prev :: "('a \<times> real) list"
  assume "keys prev = keys corpus \<and> sum_list (dict_values prev) = 1"
  then show "\<exists>r m. pass_loop corpus d (length corpus) prev (keys corpus) prev 0 = Inr (r, m)
      \<and> keys r = keys corpus \<and> sum_list (dict_values r) = 1"
    using full_pass_preserves_sum [OF assms(2,3,1)] by blast
next
  fix r
  assume "iterate_pagerank corpus d = Some (Inr r)"
  then obtain j where r: "r = ranks_of (keys corpus)
      ((update_rank corpus d ^^ j) (\<lambda>p. 1 / real (length corpus)))"
    using iterate_pagerank_result [OF assms(2)] by blast
  show "keys r = keys corpus"
    by (simp add: r keys_ranks_of)
  show "sum_list (dict_values r) = 1"
    using sum_iterated_ranks [OF assms(2,3,1), where d = d and k = j]
    by (simp add: r values_ranks_of)
qed

theorem iterate_pagerank_mass_conservation_witness:
  "(\<forall>k. \<exists>r m. run_passes [(''A'', {|''B''|}), (''B'', {|''A''|})] (85 / 100) k = Inr (r, m)
        \<and> keys r = keys [(''A'', {|''B''|}), (''B'', {|''A''|})] \<and> sum_list (dict_values r) = 1)
   \<and> (\<exists>r m. pass_loop [(''A'', {|''B''|}), (''B'', {|''A''|})] (85 / 100)
                 (length [(''A'', {|''B''|}), (''B'', {|''A''|})]) [(''A'', 1 / 4), (''B'', 3 / 4)]
                 (keys [(''A'', {|''B''|}), (''B'', {|''A''|})]) [(''A'', 1 / 4), (''B'', 3 / 4)] 0
               = Inr (r, m)
           \<and> keys r = keys [(''A'', {|''B''|}), (''B'', {|''A''|})] \<and> sum_list (dict_values r) = 1)
   \<and> iterate_pagerank [(''A'', {|''B''|}), (''B'', {|''A''|})] (85 / 100)
       = Some (Inr [(''A'', 1 / 2), (''B'', 1 / 2)])
   \<and> keys [(''A'', 1 / 2 :: real), (''B'', 1 / 2)] = keys [(''A'', {|''B''|}), (''B'', {|''A''|})]
   \<and> sum_list (dict_values [(''A'', 1 / 2 :: real), (''B'', 1 / 2)]) = 1"
proof -
  have "[(''A'', {|''B''|}), (''B'', {|''A''|})] \<noteq> []"
    and "is_dict [(''A'', {|''B''|}), (''B'', {|''A''|})]"
    and "corpus_invariant [(''A'', {|''B''|}), (''B'', {|''A''|})]"
    and "(0::real) < 85 / 100" and "(85::real) / 100 < 1"
    by (simp_all add: is_dict_def corpus_invariant_def keys_def)
  note all = iterate_pagerank_mass_conservation [OF this]
  have prev: "keys [(''A'', 1 / 4 :: real), (''B'', 3 / 4)] = keys [(''A'', {|''B''|}), (''B'', {|''A''|})]
      \<and> sum_list (dict_values [(''A'', 1 / 4 :: real), (''B'', 3 / 4)]) = 1"
    by (simp add: keys_def dict_values_def)
  have run: "iterate_pagerank [(''A'', {|''B''|}), (''B'', {|''A''|})] (85 / 100)
      = Some (Inr [(''A'', 1 / 2), (''B'', 1 / 2)])"
    by code_simp
  show ?thesis
    using all prev run by blast
qed




section \<open>Degenerate inputs\<close>

text \<open>
  C9 (single-page corpus). For the corpus \<^verbatim>\<open>{A: {}}\<close> and a damping factor in \<open>(0, 1)\<close>,
  \<open>sample_pagerank\<close> returns \<^verbatim>\<open>{A: 1.0}\<close> for every \<open>n \<ge> 1\<close> and every random source, and
  \<open>iterate_pagerank\<close> returns \<^verbatim>\<open>{A: 1.0}\<close>.
\<close>

theorem single_page_corpus:
  assumes "0 < d" and "d < 1" and "1 \<le> n"
  shows "sample_pagerank [(a, {||})] d n rnd = Inr [(a, 1)]
       \<and> iterate_pagerank [(a, {||})] d = Some (Inr [(a, 1)])"
proof
  have ne: "[(a, {||} :: 'a fset)] \<noteq> []"
    by simp
  obtain res where res: "sample_pagerank [(a, {||})] d n rnd = Inr res"
    using sample_pagerank_returns [OF transition_model_valid_damping [OF assms(1,2)] ne assms(3)]
    by blast
  obtain counts where k: "keys counts = keys [(a, {||} :: 'a fset)]"
    and total: "sum_list (dict_values counts) = n"
    and shape: "res = map (\<lambda>(k, c). (k, real_of_int c / real_of_int n)) counts"
    using sample_pagerank_shape [OF ne assms(3) res] by blast
  from k obtain c where counts: "counts = [(a, c)]"
    by (cases counts) (auto simp: keys_def)
  have "c = n"
    using total by (simp add: counts dict_values_def)
  then have "res = [(a, 1)]"
    using assms(3) by (simp add: shape counts)
  then show "sample_pagerank [(a, {||})] d n rnd = Inr [(a, 1)]"
    using res by simp
next
  show "iterate_pagerank [(a, {||})] d = Some (Inr [(a, 1)])"
    by (simp add: iterate_pagerank_def initial_ranks_def keys_def py_div_def getitem_def
        while_loop.simps)
qed

theorem single_page_corpus_witness:
  "sample_pagerank [(''A'', {||})] (85 / 100) 4 (\<lambda>i. 1 / 3) = Inr [(''A'', 1)]
   \<and> iterate_pagerank [(''A'', {||})] (85 / 100) = Some (Inr [(''A'', 1)])"
  using single_page_corpus [of "85 / 100" 4 "''A''" "\<lambda>i. 1 / 3"]
  by simp

text \<open>
  C7 (empty corpus), as the code behaves. The code has no check for an empty corpus and
  no \<^verbatim>\<open>EmptyCorpus\<close> condition. On the empty corpus \<open>transition_model\<close> raises
  \<^verbatim>\<open>KeyError\<close> at the lookup \<^verbatim>\<open>corpus[page]\<close>, whatever the page; \<open>sample_pagerank\<close> with
  \<open>n \<ge> 1\<close> raises \<^verbatim>\<open>IndexError\<close> in the first weighted draw, from an empty population;
  and \<open>iterate_pagerank\<close> raises nothing and returns the empty distribution. None of them
  divides by zero.
\<close>

theorem empty_corpus_behaviour:
  "transition_model [] page d = Inl KeyError
   \<and> (1 \<le> n \<longrightarrow> sample_pagerank [] d n rnd = Inl IndexError)
   \<and> iterate_pagerank [] d' = Some (Inr [])"
proof (intro conjI impI)
  show "transition_model [] page d = Inl KeyError"
    by (simp add: transition_model_def getitem_def)
next
  assume "1 \<le> n"
  then obtain k where "nat n = Suc k"
    by (cases "nat n") auto
  then show "sample_pagerank [] d n rnd = Inl IndexError"
    by (simp add: sample_pagerank_def keys_def choices_def dict_values_def)
next
  show "iterate_pagerank [] d' = Some (Inr [])"
    by (simp add: iterate_pagerank_def initial_ranks_def keys_def while_loop.simps)
qed

theorem empty_corpus_behaviour_witness:
  "transition_model [] ''A'' (85 / 100) = Inl KeyError
   \<and> sample_pagerank ([] :: string corpus) (85 / 100) 1 (\<lambda>i. 0) = Inl IndexError
   \<and> iterate_pagerank ([] :: string corpus) (85 / 100) = Some (Inr [])"
  using empty_corpus_behaviour
    [where page = "''A''" and d = "85 / 100" and n = 1 and rnd = "\<lambda>i. 0" and d' = "85 / 100"]
  by simp

theorem empty_corpus_counterexample:
  "iterate_pagerank ([] :: string corpus) (85 / 100) = Some (Inr [])"
  by (simp add: iterate_pagerank_def initial_ranks_def keys_def while_loop.simps)

text \<open>
  C8 (damping factor out of range), as the code behaves. The code never checks the
  damping factor and has no \<^verbatim>\<open>InvalidDamping\<close> condition. For every damping factor that
  is a float, in \<open>(0, 1)\<close> or not: \<open>transition_model\<close> returns a dictionary with one value
  for every page of the corpus, for every page of the corpus; \<open>sample_pagerank\<close> on a
  non-empty corpus with \<open>n \<ge> 1\<close> returns a result or fails with the \<^verbatim>\<open>ValueError\<close> of the
  weighted draw, and with nothing else; and \<open>iterate_pagerank\<close> on a dictionary raises
  no exception (it returns a distribution or does not return).
\<close>

theorem no_damping_validation:
  "(p \<in> set (keys corpus) \<longrightarrow>
      (\<exists>res. transition_model corpus p d = Inr res \<and> keys res = keys corpus))
   \<and> (corpus \<noteq> [] \<and> 1 \<le> n \<longrightarrow>
      (\<exists>res. sample_pagerank corpus d n rnd = Inr res)
        \<or> sample_pagerank corpus d n rnd = Inl ValueError)
   \<and> (is_dict corpus \<longrightarrow> (\<forall>e. iterate_pagerank corpus d \<noteq> Some (Inl e)))"
proof (intro conjI impI allI)
  assume "p \<in> set (keys corpus)"
  then obtain links where links: "map_of corpus p = Some links"
    using key_lookup [of p corpus] by blast
  show "\<exists>res. transition_model corpus p d = Inr res \<and> keys res = keys corpus"
    by (simp add: transition_model_eq [OF links] keys_def comp_def)
next
  assume "corpus \<noteq> [] \<and> 1 \<le> n"
  then show "(\<exists>res. sample_pagerank corpus d n rnd = Inr res)
      \<or> sample_pagerank corpus d n rnd = Inl ValueError"
    using sample_pagerank_outcome [of corpus n d rnd] by blast
next
  fix e
  assume "is_dict corpus"
  then show "iterate_pagerank corpus d \<noteq> Some (Inl e)"
    by (rule iterate_pagerank_never_raises)
qed

theorem no_damping_validation_witness:
  "(\<exists>res. transition_model [(''A'', {|''B''|}), (''B'', {|''A''|})] ''A'' 2 = Inr res
      \<and> keys res = keys [(''A'', {|''B''|}), (''B'', {|''A''|})])
   \<and> ((\<exists>res. sample_pagerank [(''A'', {|''B''|}), (''B'', {|''A''|})] 2 3 (\<lambda>i. 1 / 2) = Inr res)
      \<or> sample_pagerank [(''A'', {|''B''|}), (''B'', {|''A''|})] 2 3 (\<lambda>i. 1 / 2) = Inl ValueError)
   \<and> (\<forall>e. iterate_pagerank [(''A'', {|''B''|}), (''B'', {|''A''|})] 2 \<noteq> Some (Inl e))"
proof -
  have "''A'' \<in> set (keys [(''A'', {|''B''|}), (''B'', {|''A''|})])"
    and "[(''A'', {|''B''|}), (''B'', {|''A''|})] \<noteq> [] \<and> (1::int) \<le> 3"
    and "is_dict [(''A'', {|''B''|}), (''B'', {|''A''|})]"
    by (simp_all add: is_dict_def keys_def)
  then show ?thesis
    using no_damping_validation
      [of "''A''" "[(''A'', {|''B''|}), (''B'', {|''A''|})]" 2 3 "\<lambda>i. 1 / 2"]
    by blast
qed

theorem invalid_damping_counterexample:
  "transition_model [(''A'', {|''B''|}), (''B'', {|''A''|})] ''A'' 2
     = Inr [(''A'', - 1 / 2), (''B'', 3 / 2)]"
  by code_simp

end
